theory Spec2Isabelle
  imports Main
begin

section \<open>Python strings\<close>

text \<open>
  A Python \<open>str\<close> is a sequence of Unicode code points; \<open>len\<close> counts code points.
  A code point is a natural number, a string a list of them.
\<close>

type_synonym pystr = "nat list"

text \<open>ASCII literals of the source, written as HOL strings.\<close>

definition ascii :: "string \<Rightarrow> pystr" where
  "ascii s = map of_char s"

text \<open>
  \<open>str.isspace\<close> on one code point: the characters that \<open>str.strip()\<close> (called with
  no argument) removes. The table is CPython's \<open>_PyUnicode_IsWhitespace\<close>.
\<close>

definition isspace :: "nat \<Rightarrow> bool" where
  "isspace c =
     ((9 \<le> c \<and> c \<le> 13) \<or> (28 \<le> c \<and> c \<le> 32) \<or> c = 133 \<or> c = 160 \<or> c = 5760 \<or>
      (8192 \<le> c \<and> c \<le> 8202) \<or> c = 8232 \<or> c = 8233 \<or> c = 8239 \<or> c = 8287 \<or>
      c = 12288)"

definition lstrip :: "pystr \<Rightarrow> pystr" where
  "lstrip s = dropWhile isspace s"

definition rstrip :: "pystr \<Rightarrow> pystr" where
  "rstrip s = rev (dropWhile isspace (rev s))"

text \<open>\<open>s.strip()\<close>: whitespace removed at both ends.\<close>

definition strip :: "pystr \<Rightarrow> pystr" where
  "strip s = rstrip (lstrip s)"

text \<open>\<open>sep.join(xs)\<close>.\<close>

fun join :: "pystr \<Rightarrow> pystr list \<Rightarrow> pystr" where
  "join sep [] = []"
| "join sep [x] = x"
| "join sep (x # y # ys) = x @ sep @ join sep (y # ys)"

text \<open>\<open>s[:n]\<close> for a Python integer \<open>n\<close>: a negative \<open>n\<close> counts from the end.\<close>

definition slice_to :: "pystr \<Rightarrow> int \<Rightarrow> pystr" where
  "slice_to s n = (if 0 \<le> n then take (nat n) s else take (length s - nat (- n)) s)"

section \<open>Text extraction\<close>

text \<open>
  \<open>PdfReader\<close> and \<open>page.extract_text()\<close> belong to the PDF library. The reader is a
  parameter of the model: given the bytes it either raises (the document is not a
  readable PDF) or yields the pages in order. A page is reduced to what
  \<open>extract_text()\<close> returns on it: a string, or nothing.
\<close>

datatype error = MalformedDocument | InvalidFontAsset

datatype page = Page (extract_text: "pystr option")

type_synonym 'b pdf_reader = "'b \<Rightarrow> error + page list"

text \<open>\<open>page.extract_text() or ""\<close>.\<close>

definition text_or_empty :: "page \<Rightarrow> pystr" where
  "text_or_empty p = (case extract_text p of None \<Rightarrow> [] | Some t \<Rightarrow> t)"

text \<open>The loop of \<open>extract_pdf_text\<close>: \<open>chunks\<close> is the accumulator.\<close>

fun collect_chunks :: "page list \<Rightarrow> pystr list \<Rightarrow> pystr list" where
  "collect_chunks [] chunks = chunks"
| "collect_chunks (p # ps) chunks =
     (let text = text_or_empty p
      in if text \<noteq> [] then collect_chunks ps (chunks @ [strip text])
         else collect_chunks ps chunks)"

definition page_sep :: pystr where
  "page_sep = [10, 10]"

text \<open>\<open>"\n\n".join(chunks).strip()\<close>, the text before the cut.\<close>

definition full_text :: "page list \<Rightarrow> pystr" where
  "full_text ps = strip (join page_sep (collect_chunks ps []))"

definition extract_pdf_text :: "'b pdf_reader \<Rightarrow> 'b \<Rightarrow> int \<Rightarrow> error + pystr" where
  "extract_pdf_text reader pdf_bytes max_chars =
     (case reader pdf_bytes of
        Inl e \<Rightarrow> Inl e
      | Inr pages \<Rightarrow> Inr (slice_to (full_text pages) max_chars))"

definition default_max_chars :: int where
  "default_max_chars = 500000"

section \<open>Aggregation in the caller\<close>

text \<open>
  The loop of \<open>main\<close> over the uploaded PDFs. It runs inside one \<open>try\<close> block: an
  exception of any extraction leaves the loop and is reported.
\<close>

fun collect_law_texts :: "'b pdf_reader \<Rightarrow> 'b list \<Rightarrow> pystr list \<Rightarrow> error + pystr list" where
  "collect_law_texts reader [] law_texts = Inr law_texts"
| "collect_law_texts reader (pdf # pdfs) law_texts =
     (case extract_pdf_text reader pdf default_max_chars of
        Inl e \<Rightarrow> Inl e
      | Inr text \<Rightarrow>
          if text \<noteq> [] then collect_law_texts reader pdfs (law_texts @ [text])
          else collect_law_texts reader pdfs law_texts)"

definition law_sep :: pystr where
  "law_sep = [10, 10, 45, 45, 45, 10, 10]"

definition main_law_text :: "'b pdf_reader \<Rightarrow> 'b list \<Rightarrow> error + pystr" where
  "main_law_text reader law_pdfs =
     (case collect_law_texts reader law_pdfs [] of
        Inl e \<Rightarrow> Inl e
      | Inr law_texts \<Rightarrow> Inr (strip (join law_sep law_texts)))"

section \<open>Text blocks and lines of a result\<close>

text \<open>
  The text blocks of a string are the pieces between blank-line separators
  (\<open>s.split("\n\n")\<close>, scanning from the left); the empty string has no block.
\<close>

fun blocks :: "pystr \<Rightarrow> pystr list" where
  "blocks [] = [[]]"
| "blocks [a] = [[a]]"
| "blocks (a # b # cs) =
     (if a = 10 \<and> b = 10 then [] # blocks cs
      else (case blocks (b # cs) of [] \<Rightarrow> [[a]] | bl # bls \<Rightarrow> (a # bl) # bls))"

definition text_blocks :: "pystr \<Rightarrow> pystr list" where
  "text_blocks s = (if s = [] then [] else blocks s)"

text \<open>A text that is one block: not empty, and with no blank-line separator inside.\<close>

definition single_block :: "pystr \<Rightarrow> bool" where
  "single_block t = (t \<noteq> [] \<and> blocks t = [t])"

text \<open>The pages for which extraction yields text (the \<open>m\<close> pages out of \<open>k\<close>).\<close>

definition pages_with_text :: "page list \<Rightarrow> page list" where
  "pages_with_text ps = filter (\<lambda>p. text_or_empty p \<noteq> []) ps"

text \<open>The lines of a string (\<open>s.split("\n")\<close>).\<close>

fun lines_nl :: "pystr \<Rightarrow> pystr list" where
  "lines_nl [] = [[]]"
| "lines_nl (c # cs) =
     (if c = 10 then [] # lines_nl cs
      else (case lines_nl cs of [] \<Rightarrow> [[c]] | l # ls \<Rightarrow> (c # l) # ls))"

text \<open>The separator lines of a string: its lines that are three hyphens.\<close>

definition count_sep_lines :: "pystr \<Rightarrow> nat" where
  "count_sep_lines s = length (filter (\<lambda>l. l = [45, 45, 45]) (lines_nl s))"

text \<open>Free of leading and trailing whitespace.\<close>

definition trimmed :: "pystr \<Rightarrow> bool" where
  "trimmed s = (case s of [] \<Rightarrow> True | c # cs \<Rightarrow> \<not> isspace c \<and> \<not> isspace (last s))"

section \<open>Report building\<close>

text \<open>\<open>s.replace(old, new)\<close> for a pattern \<open>old\<close> of one character.\<close>

definition replace_char :: "nat \<Rightarrow> pystr \<Rightarrow> pystr \<Rightarrow> pystr" where
  "replace_char old new s = concat (map (\<lambda>c. if c = old then new else [c]) s)"

text \<open>
  \<open>xml.sax.saxutils.escape(data)\<close> with no \<open>entities\<close> argument: three replacements,
  the ampersand first. Quotes are left as they are.
\<close>

definition escape :: "pystr \<Rightarrow> pystr" where
  "escape data =
     replace_char 60 (ascii ''&lt;'')
       (replace_char 62 (ascii ''&gt;'')
         (replace_char 38 (ascii ''&amp;'') data))"

record paragraph_style =
  style_name :: pystr
  parent_style :: pystr
  fontName :: pystr
  leading :: "nat option"

text \<open>A spacer holds its width and its height in millimetres.\<close>

datatype flowable = Paragraph pystr paragraph_style | Spacer nat nat

text \<open>\<open>font_name or "Helvetica"\<close>.\<close>

definition base_font_of :: "pystr option \<Rightarrow> pystr" where
  "base_font_of font_name =
     (case font_name of
        None \<Rightarrow> ascii ''Helvetica''
      | Some n \<Rightarrow> if n = [] then ascii ''Helvetica'' else n)"

definition title_style :: "pystr \<Rightarrow> paragraph_style" where
  "title_style base_font =
     \<lparr>style_name = ascii ''TitleK'', parent_style = ascii ''Title'',
      fontName = base_font, leading = None\<rparr>"

definition body_style :: "pystr \<Rightarrow> paragraph_style" where
  "body_style base_font =
     \<lparr>style_name = ascii ''BodyK'', parent_style = ascii ''BodyText'',
      fontName = base_font, leading = Some 16\<rparr>"

text \<open>The fixed Korean texts of the report, as code points.\<close>

definition title_text :: pystr where
  "title_text = [44148, 52629, 32, 48277, 44508, 32, 44160, 53664, 32, 44208, 44284]"

definition analyzed_at_label :: pystr where
  "analyzed_at_label = [48516, 49437, 32, 51068, 49884, 58, 32]"

definition plan_filename_label :: pystr where
  "plan_filename_label = [46020, 47732, 32, 54028, 51068, 47749, 58, 32]"

definition analysis_label :: pystr where
  "analysis_label = [65, 73, 32, 48516, 49437, 32, 45236, 50857, 58]"

text \<open>\<open>escape(analysis_text).replace("\n", "<br/>")\<close>.\<close>

definition body_markup :: "pystr \<Rightarrow> pystr" where
  "body_markup analysis_text = replace_char 10 (ascii ''<br/>'') (escape analysis_text)"

text \<open>The \<open>story\<close> list of \<open>build_pdf_bytes\<close>.\<close>

definition story :: "pystr \<Rightarrow> pystr \<Rightarrow> pystr \<Rightarrow> pystr option \<Rightarrow> flowable list" where
  "story analysis_text plan_filename analyzed_at font_name =
     (let base_font = base_font_of font_name
      in [Paragraph title_text (title_style base_font),
          Spacer 1 6,
          Paragraph (analyzed_at_label @ escape analyzed_at) (body_style base_font),
          Paragraph (plan_filename_label @ escape plan_filename) (body_style base_font),
          Spacer 1 4,
          Paragraph analysis_label (body_style base_font),
          Spacer 1 2,
          Paragraph (body_markup analysis_text) (body_style base_font)])"

text \<open>
  The document template: A4 (210 by 297 mm) with margins of 20 mm. \<open>doc.build(story)\<close>
  is the rendering engine, a parameter of the model.
\<close>

record doc_template =
  pagesize :: "nat \<times> nat"
  leftMargin :: nat
  rightMargin :: nat
  topMargin :: nat
  bottomMargin :: nat

definition build_pdf_bytes ::
  "(doc_template \<Rightarrow> flowable list \<Rightarrow> 'bytes) \<Rightarrow> pystr \<Rightarrow> pystr \<Rightarrow> pystr \<Rightarrow> pystr option \<Rightarrow> 'bytes" where
  "build_pdf_bytes build analysis_text plan_filename analyzed_at font_name =
     build \<lparr>pagesize = (210, 297), leftMargin = 20, rightMargin = 20,
            topMargin = 20, bottomMargin = 20\<rparr>
       (story analysis_text plan_filename analyzed_at font_name)"

text \<open>The paragraphs of a story: their markup texts and their fonts.\<close>

fun paragraph_texts :: "flowable list \<Rightarrow> pystr list" where
  "paragraph_texts [] = []"
| "paragraph_texts (Paragraph t st # fs) = t # paragraph_texts fs"
| "paragraph_texts (Spacer w h # fs) = paragraph_texts fs"


subsection \<open>Reading the markup of a paragraph\<close>

text \<open>
  What a reader of paragraph markup sees: \<open><\<close> opens a tag, and the only tag
  accepted here is the line break \<open><br/>\<close>; \<open>&\<close> opens an entity reference, one of
  \<open>&amp;\<close>, \<open>&lt;\<close>, \<open>&gt;\<close>; a bare \<open>>\<close> is refused; every other character,
  quotes included, is character data. The result is the sequence of characters and
  line breaks the paragraph shows, or nothing when the text is not well formed.
\<close>

datatype token = Chr nat | LineBreak

fun read_markup :: "pystr \<Rightarrow> token list option" where
  "read_markup [] = Some []"
| "read_markup (c # cs) =
     (if c = 38 then
        (if take 4 cs = ascii ''amp;'' then map_option ((#) (Chr 38)) (read_markup (drop 4 cs))
         else if take 3 cs = ascii ''lt;'' then map_option ((#) (Chr 60)) (read_markup (drop 3 cs))
         else if take 3 cs = ascii ''gt;'' then map_option ((#) (Chr 62)) (read_markup (drop 3 cs))
         else None)
      else if c = 60 then
        (if take 4 cs = ascii ''br/>'' then map_option ((#) LineBreak) (read_markup (drop 4 cs))
         else None)
      else if c = 62 then None
      else map_option ((#) (Chr c)) (read_markup cs))"

text \<open>A character of the analysis text as the paragraph should show it.\<close>

definition body_token :: "nat \<Rightarrow> token" where
  "body_token c = (if c = 10 then LineBreak else Chr c)"

section \<open>Font resolution\<close>

text \<open>
  A path is the list of its parts. The platform answers \<open>path.exists()\<close>, tells whether
  \<open>TTFont(name, str(path))\<close> loads the file or raises, and renders \<open>str(path)\<close>.
\<close>

type_synonym path = "pystr list"

record platform =
  path_exists :: "path \<Rightarrow> bool"
  ttfont_loads :: "path \<Rightarrow> bool"
  path_str :: "path \<Rightarrow> pystr"

text \<open>
  The font registry of the rendering library, process-wide: the registered names
  (\<open>getRegisteredFontNames()\<close>), and the log of every \<open>registerFont\<close> call made since the
  process started.
\<close>

record pdfmetrics =
  registered_names :: "pystr list"
  register_log :: "pystr list"

definition registerFont :: "pystr \<Rightarrow> pdfmetrics \<Rightarrow> pdfmetrics" where
  "registerFont name pm =
     pm\<lparr>registered_names :=
          (if name \<in> set (registered_names pm) then registered_names pm
           else registered_names pm @ [name]),
        register_log := register_log pm @ [name]\<rparr>"

definition candidates :: "path \<Rightarrow> (pystr \<times> path) list" where
  "candidates base_dir =
     [(ascii ''NanumGothic'', base_dir @ [ascii ''fonts'', ascii ''NanumGothic.ttf'']),
      (ascii ''NanumGothic'', base_dir @ [ascii ''NanumGothic.ttf'']),
      (ascii ''MalgunGothic'', [ascii ''C:'', ascii ''Windows'', ascii ''Fonts'', ascii ''malgun.ttf'']),
      (ascii ''MalgunGothic'', [ascii ''C:'', ascii ''Windows'', ascii ''Fonts'', ascii ''malgunbd.ttf''])]"

text \<open>
  The loop of \<open>resolve_korean_font\<close>. \<open>registered\<close> is the set read before the loop.
  A font file that does not load raises inside \<open>TTFont\<close>, before anything is registered.
\<close>

fun resolve_loop ::
  "platform \<Rightarrow> pystr list \<Rightarrow> (pystr \<times> path) list \<Rightarrow> pdfmetrics \<Rightarrow>
   error + ((pystr option \<times> pystr option) \<times> pdfmetrics)" where
  "resolve_loop os registered [] pm = Inr ((None, None), pm)"
| "resolve_loop os registered ((name, path) # cs) pm =
     (if path_exists os path then
        (if name \<notin> set registered then
           (if ttfont_loads os path
            then Inr ((Some name, Some (path_str os path)), registerFont name pm)
            else Inl InvalidFontAsset)
         else Inr ((Some name, Some (path_str os path)), pm))
      else resolve_loop os registered cs pm)"

definition resolve_korean_font ::
  "platform \<Rightarrow> path \<Rightarrow> pdfmetrics \<Rightarrow> error + ((pystr option \<times> pystr option) \<times> pdfmetrics)" where
  "resolve_korean_font os base_dir pm =
     resolve_loop os (registered_names pm) (candidates base_dir) pm"

text \<open>
  A sequence of calls in one process, each on the platform as it is at that time. A call
  that raises leaves the registry as it was.
\<close>

fun run_resolves :: "path \<Rightarrow> platform list \<Rightarrow> pdfmetrics \<Rightarrow> pdfmetrics" where
  "run_resolves base_dir [] pm = pm"
| "run_resolves base_dir (os # oss) pm =
     (case resolve_korean_font os base_dir pm of
        Inl e \<Rightarrow> run_resolves base_dir oss pm
      | Inr (r, pm') \<Rightarrow> run_resolves base_dir oss pm')"

text \<open>No name is in the log twice, and every logged name is registered.\<close>

definition registry_ok :: "pdfmetrics \<Rightarrow> bool" where
  "registry_ok pm = (distinct (register_log pm) \<and> set (register_log pm) \<subseteq> set (registered_names pm))"

section \<open>A reader for examples\<close>

text \<open>
  A reader that refuses the empty byte string and reads any other byte string as a
  document of one page, whose text is the bytes themselves.
\<close>

definition sample_reader :: "pystr pdf_reader" where
  "sample_reader b = (if b = [] then Inl MalformedDocument else Inr [Page (Some b)])"

text \<open>
  A platform for examples: the paths that exist are listed, every font file loads, and a
  path is rendered with slashes between its parts.
\<close>

definition sample_platform :: "path list \<Rightarrow> platform" where
  "sample_platform existing =
     \<lparr>path_exists = (\<lambda>p. p \<in> set existing), ttfont_loads = (\<lambda>p. True),
      path_str = join [47]\<rparr>"

definition sample_base_dir :: path where
  "sample_base_dir = [ascii ''app'']"

text \<open>
  The first and the third candidate path for that base directory, a platform where both
  exist, and one where only the third exists.
\<close>

definition bundled_font :: path where
  "bundled_font = [ascii ''app'', ascii ''fonts'', ascii ''NanumGothic.ttf'']"

definition system_font :: path where
  "system_font = [ascii ''C:'', ascii ''Windows'', ascii ''Fonts'', ascii ''malgun.ttf'']"

definition platform_both :: platform where
  "platform_both = sample_platform [bundled_font, system_font]"

definition platform_system :: platform where
  "platform_system = sample_platform [system_font]"

text \<open>The registry of a process that has registered nothing yet.\<close>

definition fresh_registry :: pdfmetrics where
  "fresh_registry = \<lparr>registered_names = [ascii ''Helvetica''], register_log = []\<rparr>"

section \<open>Properties of trimming and joining\<close>

lemma isspace_nl: "isspace 10" by (simp add: isspace_def)

lemma collect_chunks_eq:
  "collect_chunks ps chunks = chunks @ map strip (filter (\<lambda>t. t \<noteq> []) (map text_or_empty ps))"
  by (induction ps arbitrary: chunks) (simp_all add: Let_def)

lemma lstrip_hd: "lstrip s \<noteq> [] \<Longrightarrow> \<not> isspace (hd (lstrip s))"
  unfolding lstrip_def by (simp add: hd_dropWhile)

lemma rstrip_last: "rstrip s \<noteq> [] \<Longrightarrow> \<not> isspace (last (rstrip s))"
  unfolding rstrip_def by (simp add: last_rev hd_dropWhile)

lemma rstrip_prefix: "\<exists>w. s = rstrip s @ w \<and> (\<forall>c\<in>set w. isspace c)"
proof -
  have "rev s = takeWhile isspace (rev s) @ dropWhile isspace (rev s)" by simp
  then have "s = rev (dropWhile isspace (rev s)) @ rev (takeWhile isspace (rev s))"
    by (metis rev_append rev_rev_ident)
  moreover have "\<forall>c\<in>set (rev (takeWhile isspace (rev s))). isspace c"
    by (auto dest: set_takeWhileD)
  ultimately show ?thesis unfolding rstrip_def by blast
qed

lemma rstrip_hd: "rstrip s \<noteq> [] \<Longrightarrow> hd (rstrip s) = hd s"
  using rstrip_prefix [of s] by (metis hd_append2)

lemma strip_hd: "strip s \<noteq> [] \<Longrightarrow> \<not> isspace (hd (strip s))"
  unfolding strip_def using rstrip_hd [of "lstrip s"] lstrip_hd [of s]
  by (metis rstrip_def rev.simps(1) dropWhile.simps(1))

lemma strip_last: "strip s \<noteq> [] \<Longrightarrow> \<not> isspace (last (strip s))"
  unfolding strip_def by (rule rstrip_last)

lemma lstrip_id: "s \<noteq> [] \<Longrightarrow> \<not> isspace (hd s) \<Longrightarrow> lstrip s = s"
  unfolding lstrip_def by (cases s) simp_all

lemma rstrip_id: "s \<noteq> [] \<Longrightarrow> \<not> isspace (last s) \<Longrightarrow> rstrip s = s"
  unfolding rstrip_def by (cases "rev s") (simp_all add: last_rev [symmetric] hd_rev)

lemma strip_id: "s \<noteq> [] \<Longrightarrow> \<not> isspace (hd s) \<Longrightarrow> \<not> isspace (last s) \<Longrightarrow> strip s = s"
  unfolding strip_def by (simp add: lstrip_id rstrip_id)

lemma strip_spaces: "\<forall>c\<in>set s. isspace c \<Longrightarrow> strip s = []"
proof -
  assume a: "\<forall>c\<in>set s. isspace c"
  then have d: "dropWhile isspace s = []" by (metis dropWhile_eq_Nil_conv)
  show ?thesis unfolding strip_def lstrip_def rstrip_def d by simp
qed

lemma blocks_append_sep:
  "x \<noteq> [] \<Longrightarrow> last x \<noteq> 10 \<Longrightarrow> blocks x = [x] \<Longrightarrow>
   blocks (x @ 10 # 10 # r) = x # blocks r"
proof (induction x rule: blocks.induct)
  case 1
  then show ?case by simp
next
  case (2 a)
  then show ?case by simp
next
  case (3 a b cs)
  from "3.prems"(3) have ne: "\<not> (a = 10 \<and> b = 10)"
    by (auto split: if_splits)
  from "3.prems"(3) ne have bl: "blocks (b # cs) = [b # cs]"
    by (auto split: if_splits list.splits)
  from "3.prems"(2) have la: "last (b # cs) \<noteq> 10" by simp
  have "blocks ((b # cs) @ 10 # 10 # r) = (b # cs) # blocks r"
    using "3.IH" ne la bl by simp
  then show ?case using ne by simp
qed

lemma hd_join: "x \<noteq> [] \<Longrightarrow> hd (join sep (x # xs)) = hd x"
  by (cases xs) simp_all

lemma join_nonempty: "x \<noteq> [] \<Longrightarrow> join sep (x # xs) \<noteq> []"
  by (cases xs) simp_all

lemma join_nonempty_last: "xs \<noteq> [] \<Longrightarrow> last xs \<noteq> [] \<Longrightarrow> join sep xs \<noteq> []"
  by (induction sep xs rule: join.induct) simp_all

lemma last_join:
  "xs \<noteq> [] \<Longrightarrow> last xs \<noteq> [] \<Longrightarrow> last (join sep xs) = last (last xs)"
proof (induction sep xs rule: join.induct)
  case (3 sep x y ys)
  have "join sep (y # ys) \<noteq> []"
    using 3 by (intro join_nonempty_last) simp_all
  then show ?case using 3 by simp
qed simp_all

lemma blocks_join:
  "xs \<noteq> [] \<Longrightarrow> \<forall>x\<in>set xs. x \<noteq> [] \<and> hd x \<noteq> 10 \<and> last x \<noteq> 10 \<and> blocks x = [x] \<Longrightarrow>
   blocks (join [10, 10] xs) = xs"
proof (induction "[10::nat, 10]" xs rule: join.induct)
  case 1
  then show ?case by simp
next
  case (2 x)
  then show ?case by simp
next
  case (3 x y ys)
  have "blocks (join [10, 10] (y # ys)) = y # ys" using 3 by simp
  moreover have "blocks (x @ 10 # 10 # join [10, 10] (y # ys))
      = x # blocks (join [10, 10] (y # ys))"
    using 3 by (intro blocks_append_sep) simp_all
  ultimately show ?case by simp
qed

lemma chunks_eq:
  "collect_chunks ps [] = map (\<lambda>p. strip (text_or_empty p)) (pages_with_text ps)"
  by (simp add: collect_chunks_eq pages_with_text_def filter_map comp_def)

lemma slice_to_all: "int (length s) \<le> n \<Longrightarrow> slice_to s n = s"
  by (simp add: slice_to_def)

lemma strip_join_solid:
  assumes "xs \<noteq> []" and "\<forall>x\<in>set xs. x \<noteq> [] \<and> \<not> isspace (hd x) \<and> \<not> isspace (last x)"
  shows "strip (join sep xs) = join sep xs"
proof -
  obtain x xs' where xs: "xs = x # xs'" using assms(1) by (cases xs) auto
  have "x \<noteq> []" "\<not> isspace (hd x)" using assms(2) xs by auto
  then have h: "join sep xs \<noteq> []" "\<not> isspace (hd (join sep xs))"
    using xs by (simp_all add: join_nonempty hd_join)
  have "last xs \<in> set xs" using assms(1) by simp
  then have "last xs \<noteq> []" "\<not> isspace (last (last xs))" using assms(2) by auto
  then have "\<not> isspace (last (join sep xs))" using assms(1) by (simp add: last_join)
  with h show ?thesis by (simp add: strip_id)
qed

section \<open>The extractor\<close>

text \<open>
  Claim C1, as amended. For every document that parses into pages, the extractor skips
  every page whose extraction gives nothing or the empty string, trims the text of each
  remaining page, joins the trimmed texts in page order with one double newline, trims the
  joined text and cuts it at \<open>max_chars\<close>: the result is exactly that string. When, moreover,
  every page that yields text yields, once trimmed, one text block (not empty, no blank line
  inside) and the trimmed joined text fits in \<open>max_chars\<close>, the result is the join itself
  and its text blocks are the trimmed texts of exactly those pages: as many blocks as pages
  that yield text, one blank line between them, and no trace of the skipped pages.
\<close>

theorem extract_blocks:
  assumes "reader pdf_bytes = Inr pages"
  shows "extract_pdf_text reader pdf_bytes max_chars =
           Inr (slice_to
             (strip (join page_sep
                (map (\<lambda>p. strip (text_or_empty p)) (pages_with_text pages))))
             max_chars) \<and>
         ((\<forall>p\<in>set (pages_with_text pages). single_block (strip (text_or_empty p))) \<and>
          int (length (full_text pages)) \<le> max_chars \<longrightarrow>
            (\<exists>out. extract_pdf_text reader pdf_bytes max_chars = Inr out \<and>
               out = join page_sep (map (\<lambda>p. strip (text_or_empty p)) (pages_with_text pages)) \<and>
               text_blocks out = map (\<lambda>p. strip (text_or_empty p)) (pages_with_text pages) \<and>
               length (text_blocks out) = length (pages_with_text pages)))"
proof (intro conjI impI)
  show "extract_pdf_text reader pdf_bytes max_chars =
           Inr (slice_to
             (strip (join page_sep
                (map (\<lambda>p. strip (text_or_empty p)) (pages_with_text pages))))
             max_chars)"
    using assms by (simp add: extract_pdf_text_def full_text_def chunks_eq)
next
  let ?cs = "map (\<lambda>p. strip (text_or_empty p)) (pages_with_text pages)"
  assume h: "(\<forall>p\<in>set (pages_with_text pages). single_block (strip (text_or_empty p))) \<and>
          int (length (full_text pages)) \<le> max_chars"
  have solid: "\<forall>c\<in>set ?cs.
      c \<noteq> [] \<and> \<not> isspace (hd c) \<and> \<not> isspace (last c) \<and> blocks c = [c]"
    using h by (auto simp: single_block_def strip_hd strip_last)
  have nl: "\<forall>c\<in>set ?cs. c \<noteq> [] \<and> hd c \<noteq> 10 \<and> last c \<noteq> 10 \<and> blocks c = [c]"
    using solid isspace_nl by metis
  have full: "full_text pages = join page_sep ?cs"
  proof (cases "?cs = []")
    case True
    then show ?thesis by (simp add: full_text_def chunks_eq strip_def lstrip_def rstrip_def)
  next
    case False
    then show ?thesis using solid
      by (simp add: full_text_def chunks_eq strip_join_solid del: map_is_Nil_conv)
  qed
  have out: "extract_pdf_text reader pdf_bytes max_chars = Inr (join page_sep ?cs)"
    using assms h full by (simp add: extract_pdf_text_def slice_to_all)
  have tb: "text_blocks (join page_sep ?cs) = ?cs"
  proof (cases "?cs = []")
    case True
    then show ?thesis by (simp add: text_blocks_def)
  next
    case False
    then obtain c cs' where c: "?cs = c # cs'" by (cases ?cs) auto
    then have "c \<noteq> []" using solid by (metis list.set_intros(1))
    then have "join page_sep ?cs \<noteq> []" using c by (simp add: join_nonempty)
    moreover have "blocks (join [10, 10] ?cs) = ?cs" using False nl by (rule blocks_join)
    ultimately show ?thesis by (simp add: text_blocks_def page_sep_def)
  qed
  show "\<exists>out. extract_pdf_text reader pdf_bytes max_chars = Inr out \<and>
               out = join page_sep ?cs \<and> text_blocks out = ?cs \<and>
               length (text_blocks out) = length (pages_with_text pages)"
    using out tb by simp
qed

text \<open>
  The theorem at a document of four pages, two of them without text, and at a document
  with a page of whitespace only, which is not skipped.
\<close>

theorem extract_blocks_witness:
  "extract_pdf_text
     (\<lambda>b::unit. Inr [Page (Some [32, 82, 49]), Page None, Page (Some []),
        Page (Some [82, 50, 10])]) () 500000
     = Inr [82, 49, 10, 10, 82, 50] \<and>
   text_blocks [82, 49, 10, 10, 82, 50] = [[82, 49], [82, 50]] \<and>
   length (pages_with_text
     [Page (Some [32, 82, 49]), Page None, Page (Some []), Page (Some [82, 50, 10])]) = 2 \<and>
   extract_pdf_text
     (\<lambda>b::unit. Inr [Page (Some [65]), Page (Some [32]), Page (Some [66])]) () 500000
     = Inr [65, 10, 10, 10, 10, 66]"
proof -
  let ?ps = "[Page (Some [32, 82, 49]), Page None, Page (Some []), Page (Some [82, 50, 10])]"
  let ?qs = "[Page (Some [65]), Page (Some [32]), Page (Some [66])]"
  have p: "(\<lambda>b::unit. Inr ?ps) () = (Inr ?ps :: error + page list)" by simp
  have q: "(\<lambda>b::unit. Inr ?qs) () = (Inr ?qs :: error + page list)" by simp
  have h: "(\<forall>p\<in>set (pages_with_text ?ps). single_block (strip (text_or_empty p))) \<and>
      int (length (full_text ?ps)) \<le> 500000"
    by (simp add: pages_with_text_def text_or_empty_def single_block_def strip_def lstrip_def
        rstrip_def isspace_def full_text_def page_sep_def)
  have a: "\<exists>out. extract_pdf_text (\<lambda>b::unit. Inr ?ps) () 500000 = Inr out \<and>
      out = join page_sep (map (\<lambda>p. strip (text_or_empty p)) (pages_with_text ?ps)) \<and>
      text_blocks out = map (\<lambda>p. strip (text_or_empty p)) (pages_with_text ?ps) \<and>
      length (text_blocks out) = length (pages_with_text ?ps)"
    by (rule extract_blocks [of "\<lambda>b::unit. Inr ?ps" "()" ?ps 500000, OF p, THEN conjunct2,
          THEN mp, OF h])
  have b: "extract_pdf_text (\<lambda>b::unit. Inr ?qs) () 500000 =
      Inr (slice_to
        (strip (join page_sep (map (\<lambda>p. strip (text_or_empty p)) (pages_with_text ?qs))))
        500000)"
    by (rule extract_blocks [of "\<lambda>b::unit. Inr ?qs" "()" ?qs 500000, OF q,
          THEN conjunct1])
  show ?thesis
    using a b
    by (simp add: pages_with_text_def text_or_empty_def strip_def lstrip_def rstrip_def
        isspace_def page_sep_def text_blocks_def slice_to_def)
qed

text \<open>
  Claim C1 as stated fails: a single page whose text has a blank line inside gives two
  text blocks, though only one page yields text.
\<close>

theorem blocks_counterexample:
  "extract_pdf_text (\<lambda>b::unit. Inr [Page (Some [65, 10, 10, 66])]) () default_max_chars
     = Inr [65, 10, 10, 66] \<and>
   length (text_blocks [65, 10, 10, 66]) = 2 \<and>
   length (pages_with_text [Page (Some [65, 10, 10, 66])]) = 1"
  by (simp add: extract_pdf_text_def full_text_def page_sep_def text_or_empty_def strip_def
      lstrip_def rstrip_def isspace_def slice_to_def default_max_chars_def text_blocks_def
      pages_with_text_def)

text \<open>
  Claim C3. For a document that parses and a budget \<open>max_chars\<close> that is not negative,
  the extractor returns a text of at most \<open>max_chars\<close> characters; when the trimmed joined
  text is longer than the budget, the result has exactly \<open>max_chars\<close> characters and is the
  prefix of that length of the untruncated text. With the default budget the result has at
  most 500000 characters.
\<close>

theorem extract_length:
  assumes "reader pdf_bytes = Inr pages" and "0 \<le> max_chars"
  shows "\<exists>out. extract_pdf_text reader pdf_bytes max_chars = Inr out \<and>
           int (length out) \<le> max_chars \<and>
           (max_chars < int (length (full_text pages)) \<longrightarrow>
              int (length out) = max_chars \<and> out = take (nat max_chars) (full_text pages)) \<and>
         (\<exists>out. extract_pdf_text reader pdf_bytes default_max_chars = Inr out \<and>
           length out \<le> 500000)"
  using assms by (auto simp: extract_pdf_text_def slice_to_def default_max_chars_def)

text \<open>The theorem at a budget of four characters, which cuts inside the first page.\<close>

theorem extract_length_witness:
  "extract_pdf_text (\<lambda>b::unit. Inr [Page (Some [65, 66, 32, 67, 68]), Page (Some [69])]) () 4
     = Inr [65, 66, 32, 67] \<and>
   full_text [Page (Some [65, 66, 32, 67, 68]), Page (Some [69])]
     = [65, 66, 32, 67, 68, 10, 10, 69]"
  using extract_length [of "\<lambda>b::unit. Inr [Page (Some [65, 66, 32, 67, 68]), Page (Some [69])]"
      "()" "[Page (Some [65, 66, 32, 67, 68]), Page (Some [69])]" 4]
  by (simp add: full_text_def text_or_empty_def strip_def lstrip_def rstrip_def isspace_def
      page_sep_def)

lemma join_spaces:
  "\<forall>x\<in>set xs. x = [] \<Longrightarrow> \<forall>c\<in>set (join page_sep xs). isspace c"
  by (induction page_sep xs rule: join.induct) (auto simp: page_sep_def isspace_def)

text \<open>
  Claim C8. For a document that parses and in which no page yields text (every page gives
  nothing, the empty string, or whitespace only), the extractor returns the empty string,
  whatever the budget.
\<close>

theorem extract_no_text:
  assumes "reader pdf_bytes = Inr pages"
    and "\<forall>p\<in>set pages. \<forall>c\<in>set (text_or_empty p). isspace c"
  shows "extract_pdf_text reader pdf_bytes max_chars = Inr []"
proof -
  have "\<forall>x\<in>set (collect_chunks pages []). x = []"
    using assms(2) by (auto simp: chunks_eq pages_with_text_def strip_spaces)
  then have "full_text pages = []"
    unfolding full_text_def by (intro strip_spaces join_spaces)
  then show ?thesis using assms(1) by (simp add: extract_pdf_text_def slice_to_def)
qed

text \<open>The theorem at a document of three pages without text.\<close>

theorem extract_no_text_witness:
  "extract_pdf_text (\<lambda>b::unit. Inr [Page None, Page (Some []), Page (Some [32, 10])]) ()
     default_max_chars = Inr []"
  using extract_no_text [of "\<lambda>b::unit. Inr [Page None, Page (Some []), Page (Some [32, 10])]"
      "()" "[Page None, Page (Some []), Page (Some [32, 10])]" default_max_chars]
  by (simp add: text_or_empty_def isspace_def)

section \<open>The caller's batch\<close>

lemma collect_law_texts_fails:
  "pdf \<in> set pdfs \<Longrightarrow> reader pdf = Inl e \<Longrightarrow> \<exists>e'. collect_law_texts reader pdfs acc = Inl e'"
proof (induction pdfs arbitrary: acc)
  case Nil
  then show ?case by simp
next
  case (Cons a pdfs)
  show ?case
  proof (cases "reader a")
    case (Inl e0)
    then show ?thesis by (simp add: extract_pdf_text_def)
  next
    case (Inr ps)
    then have "a \<noteq> pdf" using Cons.prems(2) by auto
    then have "pdf \<in> set pdfs" using Cons.prems(1) by simp
    then have ih: "\<And>acc. \<exists>e'. collect_law_texts reader pdfs acc = Inl e'"
      using Cons.IH Cons.prems(2) by blast
    have ex: "extract_pdf_text reader a default_max_chars
        = Inr (slice_to (full_text ps) default_max_chars)"
      using Inr by (simp add: extract_pdf_text_def)
    show ?thesis
      unfolding collect_law_texts.simps ex using ih by (simp del: collect_law_texts.simps)
  qed
qed

lemma collect_law_texts_first_failure:
  "\<forall>d\<in>set pre. \<exists>ps. reader d = Inr ps \<Longrightarrow> reader pdf = Inl e \<Longrightarrow>
   collect_law_texts reader (pre @ pdf # post) acc = Inl e"
proof (induction pre arbitrary: acc)
  case Nil
  then show ?case by (simp add: extract_pdf_text_def)
next
  case (Cons a pre)
  obtain ps where ps: "reader a = Inr ps" using Cons.prems(1) by auto
  have ih: "\<And>acc. collect_law_texts reader (pre @ pdf # post) acc = Inl e"
    using Cons.IH Cons.prems by simp
  have ex: "extract_pdf_text reader a default_max_chars
      = Inr (slice_to (full_text ps) default_max_chars)"
    using ps by (simp add: extract_pdf_text_def)
  show ?case
    unfolding append_Cons collect_law_texts.simps ex using ih
    by (simp del: collect_law_texts.simps)
qed

lemma collect_law_texts_readable:
  "\<forall>d\<in>set pdfs. \<exists>ps. reader d = Inr ps \<Longrightarrow> \<exists>ts. collect_law_texts reader pdfs acc = Inr ts"
proof (induction pdfs arbitrary: acc)
  case Nil
  then show ?case by simp
next
  case (Cons a pdfs)
  obtain ps where ps: "reader a = Inr ps" using Cons.prems by auto
  have ih: "\<And>acc. \<exists>ts. collect_law_texts reader pdfs acc = Inr ts"
    using Cons.IH Cons.prems by simp
  have ex: "extract_pdf_text reader a default_max_chars
      = Inr (slice_to (full_text ps) default_max_chars)"
    using ps by (simp add: extract_pdf_text_def)
  show ?case
    unfolding collect_law_texts.simps ex using ih by (simp del: collect_law_texts.simps)
qed

text \<open>
  Claim C6, as amended. When the reader raises on a document, the extractor raises the
  same error: nothing inside it catches it. In the caller the extractions of one batch run
  in one loop inside one \<open>try\<close> block: when the documents before the failing one are
  readable, the batch ends with the error of the failing document, whatever the documents
  after it are, and no aggregate text is produced; and any batch that holds a document on
  which the reader raises ends with an error. A batch of readable documents does give an
  aggregate text.
\<close>

theorem malformed_aborts_batch:
  assumes "reader pdf = Inl e"
  shows "extract_pdf_text reader pdf max_chars = Inl e \<and>
         ((\<forall>d\<in>set pre. \<exists>ps. reader d = Inr ps) \<longrightarrow>
            main_law_text reader (pre @ pdf # post) = Inl e) \<and>
         (pdf \<in> set pdfs \<longrightarrow> (\<exists>e'. main_law_text reader pdfs = Inl e')) \<and>
         ((\<forall>d\<in>set others. \<exists>ps. reader d = Inr ps) \<longrightarrow>
            (\<exists>agg. main_law_text reader others = Inr agg))"
proof (intro conjI impI)
  show "extract_pdf_text reader pdf max_chars = Inl e"
    using assms by (simp add: extract_pdf_text_def)
next
  assume r: "\<forall>d\<in>set pre. \<exists>ps. reader d = Inr ps"
  have "collect_law_texts reader (pre @ pdf # post) [] = Inl e"
    by (rule collect_law_texts_first_failure [of pre reader pdf e post "[]"]) (rule r, rule assms)
  then show "main_law_text reader (pre @ pdf # post) = Inl e"
    by (simp add: main_law_text_def)
next
  assume m: "pdf \<in> set pdfs"
  have "\<exists>e'. collect_law_texts reader pdfs [] = Inl e'"
    by (rule collect_law_texts_fails [of pdf pdfs reader e "[]"]) (rule m, rule assms)
  then obtain e' where "collect_law_texts reader pdfs [] = Inl e'" by (elim exE)
  then show "\<exists>e'. main_law_text reader pdfs = Inl e'" by (simp add: main_law_text_def)
next
  assume g: "\<forall>d\<in>set others. \<exists>ps. reader d = Inr ps"
  have "\<exists>ts. collect_law_texts reader others [] = Inr ts"
    by (rule collect_law_texts_readable [of others reader "[]"]) (rule g)
  then obtain ts where "collect_law_texts reader others [] = Inr ts" by (elim exE)
  then show "\<exists>agg. main_law_text reader others = Inr agg" by (simp add: main_law_text_def)
qed

text \<open>The theorem at a batch of three documents whose second one is unreadable.\<close>

theorem malformed_aborts_batch_witness:
  "extract_pdf_text sample_reader [] 500000 = Inl MalformedDocument \<and>
   main_law_text sample_reader [[66], [], [67]] = Inl MalformedDocument \<and>
   (\<exists>e'. main_law_text sample_reader [[], [66]] = Inl e') \<and>
   (\<exists>agg. main_law_text sample_reader [[66], [67]] = Inr agg)"
proof -
  have r: "sample_reader [] = Inl MalformedDocument" by (simp add: sample_reader_def)
  have p: "\<forall>d\<in>set [[66::nat]]. \<exists>ps. sample_reader d = Inr ps"
    by (simp add: sample_reader_def)
  have m: "[] \<in> set [[], [66::nat]]" by simp
  have g: "\<forall>d\<in>set [[66::nat], [67]]. \<exists>ps. sample_reader d = Inr ps"
    by (simp add: sample_reader_def)
  note t = malformed_aborts_batch
    [of sample_reader "[]" MalformedDocument 500000 "[[66]]" "[[67]]" "[[], [66]]"
      "[[66], [67]]", OF r]
  have a: "extract_pdf_text sample_reader [] 500000 = Inl MalformedDocument"
    by (rule t [THEN conjunct1])
  have b: "main_law_text sample_reader ([[66]] @ [] # [[67]]) = Inl MalformedDocument"
    by (rule t [THEN conjunct2, THEN conjunct1, THEN mp, OF p])
  have c: "\<exists>e'. main_law_text sample_reader [[], [66]] = Inl e'"
    by (rule t [THEN conjunct2, THEN conjunct2, THEN conjunct1, THEN mp, OF m])
  have d: "\<exists>agg. main_law_text sample_reader [[66], [67]] = Inr agg"
    by (rule t [THEN conjunct2, THEN conjunct2, THEN conjunct2, THEN mp, OF g])
  show ?thesis using a b c d by simp
qed

lemma sample_extract:
  "extract_pdf_text sample_reader [66] default_max_chars = Inr [66]"
  by (simp add: sample_reader_def extract_pdf_text_def full_text_def text_or_empty_def
      strip_def lstrip_def rstrip_def isspace_def slice_to_def default_max_chars_def)

text \<open>
  Claim C6 as stated fails: with an unreadable document first, the readable sibling is
  not extracted and the batch gives the error, though the sibling alone gives its text.
\<close>

theorem sibling_counterexample:
  "main_law_text sample_reader [[], [66]] = Inl MalformedDocument \<and>
   main_law_text sample_reader [[66]] = Inr [66]"
proof -
  have a: "extract_pdf_text sample_reader [] default_max_chars = Inl MalformedDocument"
    by (simp add: sample_reader_def extract_pdf_text_def)
  have s: "strip [66] = [66]" by (simp add: strip_def lstrip_def rstrip_def isspace_def)
  show ?thesis by (simp add: main_law_text_def a sample_extract s)
qed

section \<open>The aggregate of a batch\<close>

lemma lines_nl_ne: "lines_nl s \<noteq> []"
  by (induction s) (auto split: list.splits)

lemma lines_nl_append: "lines_nl (a @ 10 # b) = lines_nl a @ lines_nl b"
proof (induction a)
  case Nil
  then show ?case by simp
next
  case (Cons c a)
  obtain l ls where l: "lines_nl a = l # ls" using lines_nl_ne [of a] by (cases "lines_nl a") auto
  show ?case using Cons l by simp
qed

lemma count_sep_lines_append:
  "count_sep_lines (a @ law_sep @ b) = count_sep_lines a + 1 + count_sep_lines b"
proof -
  have "a @ law_sep @ b = a @ 10 # ([] @ 10 # ([45, 45, 45] @ 10 # ([] @ 10 # b)))"
    by (simp add: law_sep_def)
  then have "lines_nl (a @ law_sep @ b) = lines_nl a @ [[]] @ [[45, 45, 45]] @ [[]] @ lines_nl b"
    by (simp only: lines_nl_append) simp
  then show ?thesis by (simp add: count_sep_lines_def)
qed

lemma rstrip_append: "rstrip y \<noteq> [] \<Longrightarrow> rstrip (x @ y) = x @ rstrip y"
proof -
  assume "rstrip y \<noteq> []"
  then have "dropWhile isspace (rev y) \<noteq> []" by (simp add: rstrip_def)
  then obtain c where "c \<in> set (rev y)" "\<not> isspace c"
    by (metis dropWhile_eq_Nil_conv)
  then have "dropWhile isspace (rev y @ rev x) = dropWhile isspace (rev y) @ rev x"
    by simp
  then show ?thesis by (simp add: rstrip_def)
qed

lemma rstrip_nonempty: "s \<noteq> [] \<Longrightarrow> \<not> isspace (hd s) \<Longrightarrow> rstrip s \<noteq> []"
proof -
  assume s: "s \<noteq> []" "\<not> isspace (hd s)"
  then have "hd s \<in> set (rev s)" by simp
  then have "dropWhile isspace (rev s) \<noteq> []" using s(2) by (metis dropWhile_eq_Nil_conv)
  then show ?thesis by (simp add: rstrip_def)
qed

lemma strip_two:
  assumes "a \<noteq> []" "\<not> isspace (hd a)" "b \<noteq> []" "\<not> isspace (hd b)"
  shows "strip (a @ law_sep @ b) = a @ law_sep @ rstrip b"
proof -
  have "lstrip (a @ law_sep @ b) = a @ law_sep @ b"
    using assms(1,2) by (intro lstrip_id) simp_all
  moreover have "rstrip ((a @ law_sep) @ b) = (a @ law_sep) @ rstrip b"
    using assms(3,4) by (intro rstrip_append rstrip_nonempty)
  ultimately show ?thesis by (simp add: strip_def)
qed

lemma trimmed_strip: "trimmed (strip s)"
proof (cases "strip s")
  case Nil
  then show ?thesis by (simp add: trimmed_def)
next
  case (Cons c cs)
  then have "\<not> isspace (hd (strip s))" "\<not> isspace (last (strip s))"
    using strip_hd [of s] strip_last [of s] by simp_all
  then show ?thesis using Cons by (simp add: trimmed_def)
qed

lemma extract_hd:
  assumes "extract_pdf_text reader d default_max_chars = Inr a" "a \<noteq> []"
  shows "\<not> isspace (hd a)"
proof -
  obtain ps where ps: "reader d = Inr ps" using assms(1)
    by (cases "reader d") (simp_all add: extract_pdf_text_def)
  then have a: "a = take 500000 (full_text ps)"
    using assms(1) by (simp add: extract_pdf_text_def slice_to_def default_max_chars_def)
  then have ne: "full_text ps \<noteq> []" using assms(2) by auto
  have "hd a = hd (full_text ps)" unfolding a using ne by (cases "full_text ps") simp_all
  then show ?thesis using ne strip_hd [of "join page_sep (collect_chunks ps [])"]
    by (simp add: full_text_def)
qed

lemma collect_law_texts_eq:
  "map (\<lambda>d. extract_pdf_text reader d default_max_chars) pdfs = map Inr outs \<Longrightarrow>
   collect_law_texts reader pdfs acc = Inr (acc @ filter (\<lambda>t. t \<noteq> []) outs)"
proof (induction pdfs arbitrary: outs acc)
  case Nil
  then show ?case by simp
next
  case (Cons d pdfs)
  then obtain t ts where o: "outs = t # ts" by (cases outs) auto
  then have t: "extract_pdf_text reader d default_max_chars = Inr t"
    and r: "map (\<lambda>d. extract_pdf_text reader d default_max_chars) pdfs = map Inr ts"
    using Cons.prems by simp_all
  show ?case using Cons.IH [OF r] t o by simp
qed

text \<open>
  Claim C7, as amended. When every document of a batch is extracted, the caller joins the
  non-empty results with the separator (a blank line, three hyphens, a blank line) and trims
  the whole; the aggregate is free of leading and trailing whitespace. For two documents
  with non-empty results \<open>a\<close> and \<open>b\<close> the aggregate is \<open>a\<close>, the separator, and \<open>b\<close>
  without its trailing whitespace: it has exactly one separator line more than \<open>a\<close> and
  \<open>b\<close> without its trailing whitespace hold together, hence exactly one when these two hold
  none. When \<open>b\<close> does not end in whitespace, the aggregate is \<open>a\<close>, the separator and \<open>b\<close>,
  with one separator line more than \<open>a\<close> and \<open>b\<close> hold.
\<close>

theorem aggregate_law_texts:
  assumes "map (\<lambda>d. extract_pdf_text reader d default_max_chars) pdfs = map Inr outs"
  shows "\<exists>agg. main_law_text reader pdfs = Inr agg \<and>
           agg = strip (join law_sep (filter (\<lambda>t. t \<noteq> []) outs)) \<and>
           trimmed agg \<and>
           (\<forall>a b. outs = [a, b] \<and> a \<noteq> [] \<and> b \<noteq> [] \<longrightarrow>
              agg = a @ law_sep @ rstrip b \<and>
              count_sep_lines agg = count_sep_lines a + 1 + count_sep_lines (rstrip b) \<and>
              (\<not> isspace (last b) \<longrightarrow>
                 agg = a @ law_sep @ b \<and>
                 count_sep_lines agg = count_sep_lines a + 1 + count_sep_lines b))"
proof -
  let ?agg = "strip (join law_sep (filter (\<lambda>t. t \<noteq> []) outs))"
  have m: "main_law_text reader pdfs = Inr ?agg"
    using collect_law_texts_eq [OF assms, of "[]"] by (simp add: main_law_text_def)
  have two: "?agg = a @ law_sep @ rstrip b \<and>
      count_sep_lines ?agg = count_sep_lines a + 1 + count_sep_lines (rstrip b)"
    if o: "outs = [a, b]" and ne: "a \<noteq> []" "b \<noteq> []" for a b
  proof -
    have "length pdfs = 2" using arg_cong [OF assms, of length] o by simp
    then obtain d1 d2 where p: "pdfs = [d1, d2]"
      by (cases pdfs; cases "tl pdfs") auto
    have e1: "extract_pdf_text reader d1 default_max_chars = Inr a"
      and e2: "extract_pdf_text reader d2 default_max_chars = Inr b"
      using assms o p by simp_all
    have "\<not> isspace (hd a)" by (rule extract_hd [of reader d1 a, OF e1 ne(1)])
    moreover have "\<not> isspace (hd b)" by (rule extract_hd [of reader d2 b, OF e2 ne(2)])
    ultimately have "?agg = a @ law_sep @ rstrip b" using o ne by (simp add: strip_two)
    then show ?thesis by (simp add: count_sep_lines_append)
  qed
  have tr: "trimmed ?agg" by (rule trimmed_strip)
  show ?thesis
  proof (intro exI conjI allI impI)
    show "main_law_text reader pdfs = Inr ?agg" by (rule m)
    show "?agg = strip (join law_sep (filter (\<lambda>t. t \<noteq> []) outs))" by (rule refl)
    show "trimmed ?agg" by (rule tr)
  next
    fix a b
    assume h: "outs = [a, b] \<and> a \<noteq> [] \<and> b \<noteq> []"
    then have o: "outs = [a, b]" "a \<noteq> []" "b \<noteq> []" by simp_all
    note tw = two [OF o]
    have t: "?agg = a @ law_sep @ rstrip b" by (rule tw [THEN conjunct1])
    have c: "count_sep_lines ?agg = count_sep_lines a + 1 + count_sep_lines (rstrip b)"
      by (rule tw [THEN conjunct2])
    show "?agg = a @ law_sep @ rstrip b" by (rule t)
    show "count_sep_lines ?agg = count_sep_lines a + 1 + count_sep_lines (rstrip b)"
      by (rule c)
    assume "\<not> isspace (last b)"
    then have r: "rstrip b = b" using h by (simp add: rstrip_id)
    show "?agg = a @ law_sep @ b" using t unfolding r by simp
    show "count_sep_lines ?agg = count_sep_lines a + 1 + count_sep_lines b"
      using c unfolding r by simp
  qed
qed

lemma sample_extract_id:
  "b \<noteq> [] \<Longrightarrow> length b \<le> 10 \<Longrightarrow> strip b = b \<Longrightarrow>
   extract_pdf_text sample_reader b default_max_chars = Inr b"
  by (simp add: sample_reader_def extract_pdf_text_def full_text_def text_or_empty_def
      slice_to_def default_max_chars_def)

text \<open>The theorem at two documents of one page each.\<close>

theorem aggregate_law_texts_witness:
  "main_law_text sample_reader [[82, 49], [82, 50]]
     = Inr [82, 49, 10, 10, 45, 45, 45, 10, 10, 82, 50] \<and>
   trimmed [82, 49, 10, 10, 45, 45, 45, 10, 10, 82, 50] \<and>
   count_sep_lines [82, 49, 10, 10, 45, 45, 45, 10, 10, 82, 50] = 1"
proof -
  have s1: "strip [82, 49] = [82, 49]" and s2: "strip [82, 50] = [82, 50]"
    by (simp_all add: strip_def lstrip_def rstrip_def isspace_def)
  have e: "map (\<lambda>d. extract_pdf_text sample_reader d default_max_chars) [[82, 49], [82, 50]]
      = map Inr [[82, 49], [82, 50]]"
    by (simp add: sample_extract_id s1 s2)
  have c: "count_sep_lines [82, 49] = 0" "count_sep_lines [82, 50] = 0"
    by (simp_all add: count_sep_lines_def)
  obtain agg where m: "main_law_text sample_reader [[82, 49], [82, 50]] = Inr agg"
    and t: "trimmed agg"
    and two: "\<forall>a b. [[82, 49], [82, 50]] = [a, b] \<and> a \<noteq> [] \<and> b \<noteq> [] \<longrightarrow>
              agg = a @ law_sep @ rstrip b \<and>
              count_sep_lines agg = count_sep_lines a + 1 + count_sep_lines (rstrip b) \<and>
              (\<not> isspace (last b) \<longrightarrow>
                 agg = a @ law_sep @ b \<and>
                 count_sep_lines agg = count_sep_lines a + 1 + count_sep_lines b)"
    using aggregate_law_texts [OF e] by (elim exE conjE)
  have pre: "[[82, 49], [82, 50]] = [[82, 49], [82, 50::nat]] \<and> [82, 49] \<noteq> ([]::nat list) \<and>
      [82, 50] \<noteq> ([]::nat list)"
    by simp
  have l: "\<not> isspace (last [82, 50])" by (simp add: isspace_def)
  note r = two [THEN spec, THEN spec, THEN mp, OF pre, THEN conjunct2, THEN conjunct2,
      THEN mp, OF l]
  have a: "agg = [82, 49, 10, 10, 45, 45, 45, 10, 10, 82, 50]"
    using r [THEN conjunct1] by (simp add: law_sep_def)
  have n: "count_sep_lines agg = 1"
    using r [THEN conjunct2] by (simp add: c)
  show ?thesis using m t n unfolding a by simp
qed

text \<open>
  Claim C7 as stated fails: when the text of a document has a line of three hyphens, the
  aggregate of two documents has two separator lines.
\<close>

theorem separator_counterexample:
  "main_law_text sample_reader [[45, 45, 45], [66]]
     = Inr [45, 45, 45, 10, 10, 45, 45, 45, 10, 10, 66] \<and>
   count_sep_lines [45, 45, 45, 10, 10, 45, 45, 45, 10, 10, 66] = 2"
proof -
  have s: "strip [45, 45, 45] = [45, 45, 45]" "strip [66] = [66]"
    "strip [45, 45, 45, 10, 10, 45, 45, 45, 10, 10, 66]
       = [45, 45, 45, 10, 10, 45, 45, 45, 10, 10, 66]"
    by (simp_all add: strip_def lstrip_def rstrip_def isspace_def)
  have "main_law_text sample_reader [[45, 45, 45], [66]]
      = Inr [45, 45, 45, 10, 10, 45, 45, 45, 10, 10, 66]"
    by (simp add: main_law_text_def sample_extract_id s law_sep_def)
  moreover have "count_sep_lines [45, 45, 45, 10, 10, 45, 45, 45, 10, 10, 66] = 2"
    by (simp add: count_sep_lines_def)
  ultimately show ?thesis by simp
qed

section \<open>The report\<close>

lemma ascii_entities:
  "ascii ''&amp;'' = [38, 97, 109, 112, 59]"
  "ascii ''&gt;'' = [38, 103, 116, 59]"
  "ascii ''&lt;'' = [38, 108, 116, 59]"
  "ascii ''<br/>'' = [60, 98, 114, 47, 62]"
  "ascii ''amp;'' = [97, 109, 112, 59]"
  "ascii ''gt;'' = [103, 116, 59]"
  "ascii ''lt;'' = [108, 116, 59]"
  "ascii ''br/>'' = [98, 114, 47, 62]"
  by (simp_all add: ascii_def)

lemma replace_char_Nil: "replace_char old new [] = []"
  by (simp add: replace_char_def)

lemma replace_char_Cons:
  "replace_char old new (c # s) = (if c = old then new else [c]) @ replace_char old new s"
  by (simp add: replace_char_def)

lemma replace_char_append:
  "replace_char old new (s @ t) = replace_char old new s @ replace_char old new t"
  by (simp add: replace_char_def)

lemma escape_Nil: "escape [] = []"
  by (simp add: escape_def replace_char_Nil)

lemma escape_Cons:
  "escape (c # s) =
     (if c = 38 then [38, 97, 109, 112, 59]
      else if c = 62 then [38, 103, 116, 59]
      else if c = 60 then [38, 108, 116, 59]
      else [c]) @ escape s"
  by (simp add: escape_def ascii_entities replace_char_Cons replace_char_append replace_char_Nil)

lemma body_markup_Nil: "body_markup [] = []"
  by (simp add: body_markup_def escape_Nil replace_char_Nil)

lemma body_markup_Cons:
  "body_markup (c # s) =
     (if c = 38 then [38, 97, 109, 112, 59]
      else if c = 62 then [38, 103, 116, 59]
      else if c = 60 then [38, 108, 116, 59]
      else if c = 10 then [60, 98, 114, 47, 62]
      else [c]) @ body_markup s"
  by (simp add: body_markup_def escape_Cons ascii_entities replace_char_Cons replace_char_append
      replace_char_Nil)

lemma read_escape: "read_markup (escape s) = Some (map Chr s)"
  by (induction s) (simp_all add: escape_Nil escape_Cons ascii_entities)

lemma read_body_markup: "read_markup (body_markup s) = Some (map body_token s)"
  by (induction s) (simp_all add: body_markup_Nil body_markup_Cons ascii_entities body_token_def)

lemma read_plain_append:
  "\<forall>c\<in>set l. c \<noteq> 38 \<and> c \<noteq> 60 \<and> c \<noteq> 62 \<Longrightarrow>
   read_markup (l @ r) = map_option ((@) (map Chr l)) (read_markup r)"
proof (induction l)
  case Nil
  then show ?case by (cases "read_markup r") simp_all
next
  case (Cons a l)
  then show ?case by (cases "read_markup r") simp_all
qed

lemma no_newline_body: "10 \<notin> set (body_markup s)"
  by (induction s) (simp_all add: body_markup_Nil body_markup_Cons)

text \<open>
  Claim C2. For every rendering engine, \<open>build_pdf_bytes\<close> hands the engine the A4 template
  and a story whose paragraphs are, in order: the title, the label and the escaped
  timestamp, the label and the escaped filename, the section label, and the escaped
  analysis text with \<open><br/>\<close> for every newline. Whatever the three fields contain, the
  markup of these paragraphs reads back as character data only: the timestamp and the
  filename after their labels, character for character (ampersands, angle brackets and
  quotes included), and the analysis text with a line break in place of every newline; the
  markup of the analysis paragraph holds no newline character. The story is observed
  through the engine that returns the flowables it is given.
\<close>

theorem build_pdf_bytes_markup:
  "build_pdf_bytes build analysis_text plan_filename analyzed_at font_name =
     build \<lparr>pagesize = (210, 297), leftMargin = 20, rightMargin = 20,
            topMargin = 20, bottomMargin = 20\<rparr>
       (build_pdf_bytes (\<lambda>doc flowables. flowables)
          analysis_text plan_filename analyzed_at font_name) \<and>
   paragraph_texts
     (build_pdf_bytes (\<lambda>doc flowables. flowables)
        analysis_text plan_filename analyzed_at font_name) =
     [title_text,
      analyzed_at_label @ escape analyzed_at,
      plan_filename_label @ escape plan_filename,
      analysis_label,
      replace_char 10 (ascii ''<br/>'') (escape analysis_text)] \<and>
   map read_markup
     (paragraph_texts
        (build_pdf_bytes (\<lambda>doc flowables. flowables)
           analysis_text plan_filename analyzed_at font_name)) =
     [Some (map Chr title_text),
      Some (map Chr (analyzed_at_label @ analyzed_at)),
      Some (map Chr (plan_filename_label @ plan_filename)),
      Some (map Chr analysis_label),
      Some (map body_token analysis_text)] \<and>
   10 \<notin> set (last (paragraph_texts
     (build_pdf_bytes (\<lambda>doc flowables. flowables)
        analysis_text plan_filename analyzed_at font_name)))"
proof -
  have t: "read_markup title_text = Some (map Chr title_text)"
    using read_plain_append [of title_text "[]"] by (simp add: title_text_def)
  have l: "read_markup analysis_label = Some (map Chr analysis_label)"
    using read_plain_append [of analysis_label "[]"] by (simp add: analysis_label_def)
  have a: "read_markup (analyzed_at_label @ escape analyzed_at)
      = Some (map Chr (analyzed_at_label @ analyzed_at))"
    using read_plain_append [of analyzed_at_label "escape analyzed_at"]
    by (simp add: analyzed_at_label_def read_escape)
  have f: "read_markup (plan_filename_label @ escape plan_filename)
      = Some (map Chr (plan_filename_label @ plan_filename))"
    using read_plain_append [of plan_filename_label "escape plan_filename"]
    by (simp add: plan_filename_label_def read_escape)
  have b: "read_markup (replace_char 10 (ascii ''<br/>'') (escape analysis_text))
      = Some (map body_token analysis_text)"
    using read_body_markup [of analysis_text] by (simp add: body_markup_def)
  have n: "10 \<notin> set (replace_char 10 (ascii ''<br/>'') (escape analysis_text))"
    using no_newline_body [of analysis_text] by (simp add: body_markup_def)
  have p: "paragraph_texts
     (build_pdf_bytes (\<lambda>doc flowables. flowables)
        analysis_text plan_filename analyzed_at font_name) =
     [title_text,
      analyzed_at_label @ escape analyzed_at,
      plan_filename_label @ escape plan_filename,
      analysis_label,
      replace_char 10 (ascii ''<br/>'') (escape analysis_text)]"
    by (simp add: build_pdf_bytes_def story_def Let_def body_markup_def)
  have e: "build_pdf_bytes build analysis_text plan_filename analyzed_at font_name =
     build \<lparr>pagesize = (210, 297), leftMargin = 20, rightMargin = 20,
            topMargin = 20, bottomMargin = 20\<rparr>
       (build_pdf_bytes (\<lambda>doc flowables. flowables)
          analysis_text plan_filename analyzed_at font_name)"
    by (simp add: build_pdf_bytes_def)
  show ?thesis unfolding p using e p t l a f b n by simp
qed


section \<open>The font resolver\<close>

lemma resolve_loop_skip:
  "\<forall>c\<in>set pre. \<not> path_exists os (snd c) \<Longrightarrow>
   resolve_loop os registered (pre @ cs) pm = resolve_loop os registered cs pm"
  by (induction pre) auto

lemma resolve_loop_none:
  "\<forall>c\<in>set cs. \<not> path_exists os (snd c) \<Longrightarrow>
   resolve_loop os registered cs pm = Inr ((None, None), pm)"
  using resolve_loop_skip [of cs os registered "[]" pm] by simp

text \<open>
  Claim C4. The resolver returns the name and path of the first candidate, in the order of
  the list, whose path exists, provided its name is registered already or its file loads as
  a font; the candidates after it play no part, whether they exist or not. It also gives
  the registry after the call. When no candidate path exists the resolver returns the pair
  of two \<open>None\<close> and raises nothing.
\<close>

theorem resolve_first_match:
  "(candidates base_dir = pre @ (name, path) # post \<and>
    (\<forall>c\<in>set pre. \<not> path_exists os (snd c)) \<and> path_exists os path \<and>
    (name \<in> set (registered_names pm) \<or> ttfont_loads os path) \<longrightarrow>
      resolve_korean_font os base_dir pm =
        Inr ((Some name, Some (path_str os path)),
             if name \<in> set (registered_names pm) then pm else registerFont name pm)) \<and>
   ((\<forall>c\<in>set (candidates base_dir). \<not> path_exists os (snd c)) \<longrightarrow>
      resolve_korean_font os base_dir pm = Inr ((None, None), pm))"
proof (intro conjI impI)
  assume h: "candidates base_dir = pre @ (name, path) # post \<and>
    (\<forall>c\<in>set pre. \<not> path_exists os (snd c)) \<and> path_exists os path \<and>
    (name \<in> set (registered_names pm) \<or> ttfont_loads os path)"
  then have "resolve_korean_font os base_dir pm
      = resolve_loop os (registered_names pm) ((name, path) # post) pm"
    by (simp add: resolve_korean_font_def resolve_loop_skip)
  then show "resolve_korean_font os base_dir pm =
        Inr ((Some name, Some (path_str os path)),
             if name \<in> set (registered_names pm) then pm else registerFont name pm)"
    using h by auto
next
  assume "\<forall>c\<in>set (candidates base_dir). \<not> path_exists os (snd c)"
  then show "resolve_korean_font os base_dir pm = Inr ((None, None), pm)"
    by (simp add: resolve_korean_font_def resolve_loop_none)
qed

lemma resolve_loop_shape:
  "resolve_loop os registered cs pm = Inr ((n, p), pm') \<Longrightarrow>
   (n = None \<and> p = None) \<or>
   (\<exists>name path. n = Some name \<and> p = Some (path_str os path) \<and> (name, path) \<in> set cs \<and>
      path_exists os path)"
proof (induction cs)
  case Nil
  then show ?case by simp
next
  case (Cons c cs)
  obtain name path where c: "c = (name, path)" by (cases c)
  show ?case
  proof (cases "path_exists os path")
    case True
    then have "n = Some name \<and> p = Some (path_str os path)"
      using Cons.prems c by (auto split: if_splits)
    then show ?thesis using True c by auto
  next
    case False
    then have "resolve_loop os registered cs pm = Inr ((n, p), pm')"
      using Cons.prems c by simp
    then show ?thesis using Cons.IH by auto
  qed
qed

lemma candidate_names:
  "(name, path) \<in> set (candidates base_dir) \<Longrightarrow>
   name = ascii ''NanumGothic'' \<or> name = ascii ''MalgunGothic''"
  by (auto simp: candidates_def)

text \<open>
  Claim C9. A call that returns gives either the pair of two \<open>None\<close>, or a name and a
  path that are both present: the name and the rendered path of one candidate of the list,
  the name being NanumGothic or MalgunGothic, and the path one that exists.
\<close>

theorem resolve_result_shape:
  assumes "resolve_korean_font os base_dir pm = Inr ((n, p), pm')"
  shows "(n = None \<and> p = None) \<or>
    (\<exists>name path. n = Some name \<and> p = Some (path_str os path) \<and>
       (name, path) \<in> set (candidates base_dir) \<and>
       (name = ascii ''NanumGothic'' \<or> name = ascii ''MalgunGothic'') \<and>
       path_exists os path)"
  using resolve_loop_shape [of os "registered_names pm" "candidates base_dir" pm n p pm'] assms
    candidate_names [of _ _ base_dir]
  unfolding resolve_korean_font_def by metis

lemma sample_candidates:
  "candidates sample_base_dir =
     [] @ (ascii ''NanumGothic'', bundled_font) #
     [(ascii ''NanumGothic'', [ascii ''app'', ascii ''NanumGothic.ttf'']),
      (ascii ''MalgunGothic'', system_font),
      (ascii ''MalgunGothic'',
       [ascii ''C:'', ascii ''Windows'', ascii ''Fonts'', ascii ''malgunbd.ttf''])]"
  by (simp add: candidates_def sample_base_dir_def bundled_font_def system_font_def)

lemma resolve_both:
  "resolve_korean_font platform_both sample_base_dir fresh_registry =
     Inr ((Some (ascii ''NanumGothic''), Some (ascii ''app/fonts/NanumGothic.ttf'')),
          registerFont (ascii ''NanumGothic'') fresh_registry)"
  by (simp add: resolve_korean_font_def candidates_def sample_base_dir_def platform_both_def
      sample_platform_def bundled_font_def system_font_def fresh_registry_def ascii_def)

text \<open>
  The theorem on a platform where the first and the third candidate exist, and on one
  where none exists.
\<close>

theorem resolve_first_match_witness:
  "resolve_korean_font platform_both sample_base_dir fresh_registry =
     Inr ((Some (ascii ''NanumGothic''), Some (ascii ''app/fonts/NanumGothic.ttf'')),
          registerFont (ascii ''NanumGothic'') fresh_registry) \<and>
   resolve_korean_font (sample_platform []) sample_base_dir fresh_registry =
     Inr ((None, None), fresh_registry)"
proof -
  have s: "path_str platform_both bundled_font = ascii ''app/fonts/NanumGothic.ttf''"
    by (simp add: platform_both_def sample_platform_def bundled_font_def ascii_def)
  have n: "ascii ''NanumGothic'' \<notin> set (registered_names fresh_registry)"
    by (simp add: fresh_registry_def ascii_def)
  have h: "candidates sample_base_dir =
      [] @ (ascii ''NanumGothic'', bundled_font) #
      [(ascii ''NanumGothic'', [ascii ''app'', ascii ''NanumGothic.ttf'']),
       (ascii ''MalgunGothic'', system_font),
       (ascii ''MalgunGothic'',
        [ascii ''C:'', ascii ''Windows'', ascii ''Fonts'', ascii ''malgunbd.ttf''])] \<and>
    (\<forall>c\<in>set []. \<not> path_exists platform_both (snd c)) \<and>
    path_exists platform_both bundled_font \<and>
    (ascii ''NanumGothic'' \<in> set (registered_names fresh_registry) \<or>
     ttfont_loads platform_both bundled_font)"
    using sample_candidates by (simp add: platform_both_def sample_platform_def)
  have a: "resolve_korean_font platform_both sample_base_dir fresh_registry =
     Inr ((Some (ascii ''NanumGothic''), Some (ascii ''app/fonts/NanumGothic.ttf'')),
          registerFont (ascii ''NanumGothic'') fresh_registry)"
    using resolve_first_match [THEN conjunct1, THEN mp, OF h] n s by simp
  have e: "\<forall>c\<in>set (candidates sample_base_dir). \<not> path_exists (sample_platform []) (snd c)"
    by (simp add: sample_platform_def)
  have b: "resolve_korean_font (sample_platform []) sample_base_dir fresh_registry =
     Inr ((None, None), fresh_registry)"
    by (rule resolve_first_match [THEN conjunct2, THEN mp, OF e])
  show ?thesis using a b by simp
qed

text \<open>The theorem on a platform where only the third candidate exists.\<close>

theorem resolve_result_shape_witness:
  "\<exists>name path.
     Some (ascii ''MalgunGothic'') = Some name \<and>
     Some (ascii ''C:/Windows/Fonts/malgun.ttf'') = Some (path_str platform_system path) \<and>
     (name, path) \<in> set (candidates sample_base_dir) \<and>
     (name = ascii ''NanumGothic'' \<or> name = ascii ''MalgunGothic'') \<and>
     path_exists platform_system path"
proof -
  have r: "resolve_korean_font platform_system sample_base_dir fresh_registry =
      Inr ((Some (ascii ''MalgunGothic''), Some (ascii ''C:/Windows/Fonts/malgun.ttf'')),
           registerFont (ascii ''MalgunGothic'') fresh_registry)"
    by (simp add: resolve_korean_font_def candidates_def sample_base_dir_def
        platform_system_def sample_platform_def system_font_def fresh_registry_def ascii_def)
  show ?thesis using resolve_result_shape [OF r] by simp
qed

lemma resolve_loop_state:
  "resolve_loop os registered cs pm = Inr (r, pm') \<Longrightarrow>
   pm' = pm \<or> (\<exists>n. n \<notin> set registered \<and> pm' = registerFont n pm)"
proof (induction cs)
  case Nil
  then show ?case by simp
next
  case (Cons c cs)
  obtain name path where c: "c = (name, path)" by (cases c)
  show ?case
  proof (cases "path_exists os path")
    case True
    then show ?thesis using Cons.prems c by (auto split: if_splits)
  next
    case False
    then show ?thesis using Cons c by simp
  qed
qed

lemma registry_ok_register:
  "registry_ok pm \<Longrightarrow> n \<notin> set (registered_names pm) \<Longrightarrow> registry_ok (registerFont n pm)"
  by (auto simp: registry_ok_def registerFont_def)

lemma resolve_registry_ok:
  assumes "registry_ok pm" and "resolve_korean_font os base_dir pm = Inr (r, pm')"
  shows "registry_ok pm'"
proof -
  have "pm' = pm \<or> (\<exists>n. n \<notin> set (registered_names pm) \<and> pm' = registerFont n pm)"
    using assms(2) unfolding resolve_korean_font_def by (rule resolve_loop_state)
  then show ?thesis using assms(1) registry_ok_register by auto
qed

lemma run_resolves_ok:
  "registry_ok pm \<Longrightarrow> registry_ok (run_resolves base_dir oss pm)"
proof (induction oss arbitrary: pm)
  case Nil
  then show ?case by simp
next
  case (Cons os oss)
  show ?case
  proof (cases "resolve_korean_font os base_dir pm")
    case (Inl e)
    then show ?thesis using Cons by simp
  next
    case (Inr x)
    obtain r pm' where x: "x = (r, pm')" by (cases x)
    then have "registry_ok pm'" using Cons.prems Inr resolve_registry_ok by simp
    then show ?thesis using Cons.IH Inr x by simp
  qed
qed

lemma registered_after: "n \<in> set (registered_names (registerFont n pm))"
  by (simp add: registerFont_def)

lemma resolve_loop_repeat:
  "resolve_loop os (registered_names pm) cs pm = Inr (r, pm') \<Longrightarrow>
   resolve_loop os (registered_names pm') cs pm' = Inr (r, pm')"
proof (induction cs)
  case Nil
  then show ?case by simp
next
  case (Cons c cs)
  obtain name path where c: "c = (name, path)" by (cases c)
  show ?case
  proof (cases "path_exists os path")
    case True
    then show ?thesis using Cons.prems c by (auto split: if_splits simp: registered_after)
  next
    case False
    then show ?thesis using Cons c by simp
  qed
qed

text \<open>
  Claim C5. Starting from a registry in which no name was registered twice, any sequence of
  calls of the resolver, on whatever platforms, leaves a registry in which no name was
  registered twice. A call that returns either leaves the registry as it was or registers
  one name that was not registered before; and the same call made again returns the same
  pair, registers nothing and raises nothing.
\<close>

theorem registration_idempotent:
  "(registry_ok pm \<longrightarrow>
      registry_ok (run_resolves base_dir oss pm) \<and>
      distinct (register_log (run_resolves base_dir oss pm))) \<and>
   (resolve_korean_font os base_dir pm = Inr (r, pm') \<longrightarrow>
      (pm' = pm \<or> (\<exists>n. n \<notin> set (registered_names pm) \<and> pm' = registerFont n pm)) \<and>
      resolve_korean_font os base_dir pm' = Inr (r, pm'))"
proof (intro conjI impI)
  assume "registry_ok pm"
  then show ok: "registry_ok (run_resolves base_dir oss pm)" by (rule run_resolves_ok)
  then show "distinct (register_log (run_resolves base_dir oss pm))"
    by (simp add: registry_ok_def)
next
  assume r: "resolve_korean_font os base_dir pm = Inr (r, pm')"
  then show "pm' = pm \<or> (\<exists>n. n \<notin> set (registered_names pm) \<and> pm' = registerFont n pm)"
    unfolding resolve_korean_font_def by (rule resolve_loop_state)
  from r show "resolve_korean_font os base_dir pm' = Inr (r, pm')"
    unfolding resolve_korean_font_def by (rule resolve_loop_repeat)
qed

text \<open>
  The theorem on three calls in a fresh process: two where the first and the third
  candidate exist, one where only the third exists.
\<close>

theorem registration_idempotent_witness:
  "registry_ok fresh_registry \<and>
   register_log
     (run_resolves sample_base_dir [platform_both, platform_both, platform_system]
        fresh_registry) = [ascii ''NanumGothic'', ascii ''MalgunGothic''] \<and>
   distinct (register_log
     (run_resolves sample_base_dir [platform_both, platform_both, platform_system]
        fresh_registry)) \<and>
   resolve_korean_font platform_both sample_base_dir
     (registerFont (ascii ''NanumGothic'') fresh_registry) =
     Inr ((Some (ascii ''NanumGothic''), Some (ascii ''app/fonts/NanumGothic.ttf'')),
          registerFont (ascii ''NanumGothic'') fresh_registry)"
proof -
  have ok: "registry_ok fresh_registry"
    by (simp add: registry_ok_def fresh_registry_def)
  have d: "distinct (register_log
     (run_resolves sample_base_dir [platform_both, platform_both, platform_system]
        fresh_registry))"
    by (rule registration_idempotent [THEN conjunct1, THEN mp, OF ok, THEN conjunct2])
  have l: "register_log
     (run_resolves sample_base_dir [platform_both, platform_both, platform_system]
        fresh_registry) = [ascii ''NanumGothic'', ascii ''MalgunGothic'']"
    by (simp add: resolve_korean_font_def candidates_def sample_base_dir_def platform_both_def
        platform_system_def sample_platform_def bundled_font_def system_font_def
        fresh_registry_def registerFont_def ascii_def)
  have r2: "resolve_korean_font platform_both sample_base_dir
     (registerFont (ascii ''NanumGothic'') fresh_registry) =
     Inr ((Some (ascii ''NanumGothic''), Some (ascii ''app/fonts/NanumGothic.ttf'')),
          registerFont (ascii ''NanumGothic'') fresh_registry)"
    by (rule registration_idempotent [THEN conjunct2, THEN mp, OF resolve_both, THEN conjunct2])
  show ?thesis using ok l d r2 by simp
qed

end
